theory Spec2Isabelle
  imports Main
begin

section \<open>WeeNotify: the relay client's read loop (weenotify.py)\<close>

text \<open>
  The development follows \<^verbatim>\<open>weenotify.py\<close>: the notification handlers
  \<^verbatim>\<open>gotHighlight\<close> and \<^verbatim>\<open>gotPrivMsg\<close>, the function
  \<^verbatim>\<open>getResponse\<close> (one read, frame accumulation, routing of the decoded
  records) and the read loop of \<^verbatim>\<open>main\<close>.

  Bytes are \<^typ>\<open>char\<close>s (8 bits each). A text is kept as the bytes of its UTF-8
  encoding: the literals the program compares with (\<^verbatim>\<open>_buffer_line_added\<close>,
  \<^verbatim>\<open>hda\<close>, \<^verbatim>\<open>nick_\<close>, \<^verbatim>\<open>notify_\<close>, \<^verbatim>\<open>private\<close>) are ASCII, so
  equality, \<^verbatim>\<open>startswith\<close> and the slices \<^verbatim>\<open>tag[5:]\<close>, \<^verbatim>\<open>tag[7:]\<close>
  taken after a matched ASCII prefix agree on code points and on encoded bytes.
\<close>

subsection \<open>Data\<close>

type_synonym bytes = "char list"

text \<open>
  The socket as the program sees it: the segments of data that successive blocking
  reads find available, in order. The empty list is a connection the peer has closed
  (\<^verbatim>\<open>recv\<close> returns \<^verbatim>\<open>b''\<close>).
\<close>

type_synonym socket = "bytes list"

text \<open>
  The configuration dictionary. A key can be absent, present with \<^verbatim>\<open>None\<close>
  (an option argparse did not receive) or present with a string.
\<close>

type_synonym conf = "string \<rightharpoonup> string option"

text \<open>
  One decoded hdata object, with the three fields \<^verbatim>\<open>getResponse\<close> reads:
  \<^verbatim>\<open>hda['message']\<close>, \<^verbatim>\<open>hda['tags_array']\<close>, \<^verbatim>\<open>hda['highlight']\<close>.
\<close>

record hda =
  message :: string
  tags_array :: "string list"
  highlight :: int

text \<open>A decoder of \<^verbatim>\<open>packetRead\<close> that cannot consume its value raises.\<close>

datatype error = UnconsumableDecode

text \<open>The calls of \<^verbatim>\<open>gotHighlight\<close> and \<^verbatim>\<open>gotPrivMsg\<close>, with (message, nick).\<close>

datatype event = Highlight string string | PrivateMessage string string

text \<open>What the program does to the outside: log calls and \<^verbatim>\<open>subprocess.call\<close>.\<close>

datatype effect =
    LogDebug string
  | LogWarning string
  | LogError string
  | SubprocessCall "string list"

text \<open>
  The operating system as the handlers use it: \<^verbatim>\<open>os.path.expanduser\<close>, and whether
  \<^verbatim>\<open>subprocess.call\<close> raises on an argument list.
\<close>

record os =
  expanduser :: "string \<Rightarrow> string"
  call_raises :: "string list \<Rightarrow> bool"

text \<open>
  The outcome of one call of \<^verbatim>\<open>getResponse\<close>: the value returned (or the
  exception that left it), the handler calls made, the effects in order, and the socket
  as the call leaves it.
\<close>

record response =
  result :: "error + bool"
  events :: "event list"
  effects :: "effect list"
  sock_after :: socket

subsection \<open>The primitive decoders of packetRead\<close>

text \<open>
  Modelled from the spec: \<^verbatim>\<open>packetRead.read_int\<close>, whose source is not part of
  the files at hand. Section 4.1: exactly 4 bytes, big-endian, a signed two's-complement
  value; it fails only if fewer than 4 bytes remain. As \<^verbatim>\<open>getResponse\<close> uses it,
  it returns the value and the bytes after it.
\<close>

fun read_int :: "bytes \<Rightarrow> error + int \<times> bytes" where
  "read_int (b0 # b1 # b2 # b3 # rest) =
     (let u = ((of_char b0 * 256 + of_char b1) * 256 + of_char b2) * 256 + of_char b3
      in Inr (if u < 2147483648 then u else u - 4294967296, rest))"
| "read_int _ = Inl UnconsumableDecode"

text \<open>
  Modelled from the spec: \<^verbatim>\<open>packetRead.read_str\<close>. Section 4.1: a 4-byte signed
  length prefix followed by that many bytes of UTF-8; the length -1 is the null string,
  which decodes to the empty string. The spec gives no meaning to a length below -1 or
  beyond the bytes that remain; the model raises there (section 7, unconsumable decode).
\<close>

definition read_str :: "bytes \<Rightarrow> error + string \<times> bytes" where
  "read_str data =
     (case read_int data of
        Inl e \<Rightarrow> Inl e
      | Inr (n, rest) \<Rightarrow>
          if n = - 1 then Inr ([], rest)
          else if n < 0 \<or> int (length rest) < n then Inl UnconsumableDecode
          else Inr (take (nat n) rest, drop (nat n) rest))"

text \<open>
  Modelled from the spec: \<^verbatim>\<open>packetRead.read_typ\<close>. Section 4.1: exactly 3 raw
  bytes, an ASCII type name.
\<close>

fun read_typ :: "bytes \<Rightarrow> error + string \<times> bytes" where
  "read_typ (a # b # c # rest) = Inr ([a, b, c], rest)"
| "read_typ _ = Inl UnconsumableDecode"

text \<open>
  \<^verbatim>\<open>packetRead.read_hda\<close> is not modelled: the spec does not give the encoding of
  every field type (the array of tags among them). Every function below takes it as the
  parameter \<open>read_hda\<close>, of this type.
\<close>

type_synonym hda_decoder = "bytes \<Rightarrow> error + hda list \<times> bytes"

subsection \<open>The handlers (lines 35 to 59)\<close>

definition expandPaths :: "os \<Rightarrow> string \<Rightarrow> string" where
  "expandPaths sys path = expanduser sys path"

definition safeCall :: "os \<Rightarrow> string list \<Rightarrow> effect list" where
  "safeCall sys callArray =
     (if length callArray = 0
      then [LogError ''Trying to call an unspecified external program.'']
      else if call_raises sys callArray
      then [SubprocessCall callArray, LogError (''Could not execute '' @ hd callArray)]
      else [SubprocessCall callArray])"

definition gotHighlight :: "os \<Rightarrow> string \<Rightarrow> string \<Rightarrow> conf \<Rightarrow> effect list" where
  "gotHighlight sys msg nick conf =
     (case conf ''highlight-action'' of
        None \<Rightarrow> []
      | Some None \<Rightarrow> []
      | Some (Some action) \<Rightarrow>
          if action = [] then []
          else safeCall sys [expandPaths sys action, msg, nick])"

definition gotPrivMsg :: "os \<Rightarrow> string \<Rightarrow> string \<Rightarrow> conf \<Rightarrow> effect list" where
  "gotPrivMsg sys msg nick conf =
     (case conf ''privmsg-action'' of
        None \<Rightarrow> []
      | Some None \<Rightarrow> []
      | Some (Some action) \<Rightarrow>
          if action = [] then []
          else safeCall sys [expandPaths sys action, msg, nick])"

text \<open>The handler that an event stands for, called where the event is emitted.\<close>

fun dispatch :: "os \<Rightarrow> conf \<Rightarrow> event \<Rightarrow> effect list" where
  "dispatch sys conf (Highlight msg nick) = gotHighlight sys msg nick conf"
| "dispatch sys conf (PrivateMessage msg nick) = gotPrivMsg sys msg nick conf"

subsection \<open>getResponse (lines 61 to 113)\<close>

definition READ_AT_ONCE :: nat where
  "READ_AT_ONCE = 4096"

text \<open>
  \<^verbatim>\<open>sock.recv(n)\<close>: at most \<open>n\<close> bytes of the first segment; what is left of a longer
  segment stays first in line.
\<close>

definition recv :: "nat \<Rightarrow> socket \<Rightarrow> bytes \<times> socket" where
  "recv n sock =
     (case sock of
        [] \<Rightarrow> ([], [])
      | c # cs \<Rightarrow> (take n c, if n < length c then drop n c # cs else cs))"

definition startswith :: "string \<Rightarrow> string \<Rightarrow> bool" where
  "startswith s p = (take (length p) s = p)"

text \<open>Lines 98 to 101: the loop that sets \<^verbatim>\<open>nick\<close>; \<open>nick\<close> is its value so far.\<close>

fun nick_loop :: "string list \<Rightarrow> string \<Rightarrow> string" where
  "nick_loop [] nick = nick"
| "nick_loop (tag # tags) nick =
     nick_loop tags (if startswith tag ''nick_'' then drop 5 tag else nick)"

text \<open>Lines 106 to 111: the loop over the tags that looks for the notify level.\<close>

fun notify_loop :: "string list \<Rightarrow> string \<Rightarrow> string \<Rightarrow> event list" where
  "notify_loop [] msg nick = []"
| "notify_loop (tag # tags) msg nick =
     (if startswith tag ''notify_''
      then (let notifLevel = drop 7 tag
            in if notifLevel = ''private'' then [PrivateMessage msg nick]
               else notify_loop tags msg nick)
      else notify_loop tags msg nick)"

text \<open>Lines 97 to 111: the body of the loop over the decoded records.\<close>

definition hda_events :: "hda \<Rightarrow> event list" where
  "hda_events h =
     (let msg = message h;
          nick = nick_loop (tags_array h) []
      in if highlight h > 0 then [Highlight msg nick]
         else notify_loop (tags_array h) msg nick)"

text \<open>
  Lines 77 to 82: the accumulation loop, given the declared length, the socket, the
  buffer \<^verbatim>\<open>sockBytes\<close> and \<^verbatim>\<open>lastPacket\<close>. \<open>None\<close> is the return at line 80.
\<close>

function recv_loop :: "int \<Rightarrow> socket \<Rightarrow> bytes \<Rightarrow> bytes \<Rightarrow> bytes option \<times> socket" where
  "recv_loop mLen sock sockBytes lastPacket =
     (if int (length sockBytes) < mLen
      then (if length lastPacket < READ_AT_ONCE then (None, sock)
            else (case recv READ_AT_ONCE sock of
                    (packet, sock') \<Rightarrow> recv_loop mLen sock' (sockBytes @ packet) packet))
      else (Some sockBytes, sock))"
  by pat_completeness auto
termination
  by (relation "measure (\<lambda>(mLen, sock, sockBytes, lastPacket).
        2 * nat (mLen - int (length sockBytes))
        + (if length lastPacket < READ_AT_ONCE then 0 else 1))")
     (auto simp: READ_AT_ONCE_def)

declare recv_loop.simps [simp del]

text \<open>Lines 84 to 113: the assembled buffer's body is decoded and routed.\<close>

definition handle_body :: "hda_decoder \<Rightarrow> os \<Rightarrow> conf \<Rightarrow> bytes \<Rightarrow> socket \<Rightarrow> response" where
  "handle_body read_hda sys conf body sock =
     (case read_str body of
        Inl e \<Rightarrow> \<lparr>result = Inl e, events = [], effects = [], sock_after = sock\<rparr>
      | Inr (ident, body1) \<Rightarrow>
          if ident \<noteq> ''_buffer_line_added''
          then \<lparr>result = Inr True, events = [], effects = [], sock_after = sock\<rparr>
          else (case read_typ body1 of
            Inl e \<Rightarrow> \<lparr>result = Inl e, events = [],
                       effects = [LogDebug ''Received buffer line.''], sock_after = sock\<rparr>
          | Inr (dataTyp, body2) \<Rightarrow>
              if dataTyp \<noteq> ''hda''
              then \<lparr>result = Inr True, events = [],
                    effects = [LogDebug ''Received buffer line.'',
                      LogWarning ''Unknown buffer_line_added format. Ignoring.''],
                    sock_after = sock\<rparr>
              else (case read_hda body2 of
                Inl e \<Rightarrow> \<lparr>result = Inl e, events = [],
                           effects = [LogDebug ''Received buffer line.''], sock_after = sock\<rparr>
              | Inr (hdaData, body3) \<Rightarrow>
                  (let evs = concat (map hda_events hdaData)
                   in \<lparr>result = Inr True, events = evs,
                       effects = LogDebug ''Received buffer line.''
                                 # concat (map (dispatch sys conf) evs),
                       sock_after = sock\<rparr>))))"

definition getResponse :: "hda_decoder \<Rightarrow> os \<Rightarrow> socket \<Rightarrow> conf \<Rightarrow> response" where
  "getResponse read_hda sys sock conf =
     (case recv READ_AT_ONCE sock of (sockBytes, sock1) \<Rightarrow>
        if sockBytes = []
        then \<lparr>result = Inr False, events = [], effects = [], sock_after = sock1\<rparr>
        else if length sockBytes < 5
        then \<lparr>result = Inr True, events = [],
              effects = [LogWarning ''Packet shorter than 5 bytes received. Ignoring.''],
              sock_after = sock1\<rparr>
        else if (of_char (sockBytes ! 4) :: nat) \<noteq> 0
        then \<lparr>result = Inr True, events = [],
              effects = [LogWarning ''Received compressed message. Ignoring.''],
              sock_after = sock1\<rparr>
        else (case read_int sockBytes of
          Inl e \<Rightarrow> \<lparr>result = Inl e, events = [], effects = [], sock_after = sock1\<rparr>
        | Inr (mLen, _) \<Rightarrow>
            (case recv_loop mLen sock1 sockBytes sockBytes of
               (None, sock2) \<Rightarrow>
                 \<lparr>result = Inr True, events = [],
                  effects = [LogWarning ''Incomplete packet received. Ignoring.''],
                  sock_after = sock2\<rparr>
             | (Some buf, sock2) \<Rightarrow> handle_body read_hda sys conf (drop 5 buf) sock2)))"

subsection \<open>The read loop of main (lines 196 and 197)\<close>

text \<open>
  The loop calls \<^verbatim>\<open>getResponse\<close> until it returns a false value or raises. It
  ends on every socket: a call that returns \<^verbatim>\<open>True\<close> has read at least one
  byte, and a socket holds finitely many.
\<close>

definition sock_size :: "socket \<Rightarrow> nat" where
  "sock_size sock = sum_list (map (\<lambda>c. Suc (length c)) sock)"

lemma recv_size_le: "sock_size (snd (recv n sock)) \<le> sock_size sock"
  by (cases sock) (auto simp: recv_def sock_size_def)

lemma recv_size_less:
  "0 < n \<Longrightarrow> fst (recv n sock) \<noteq> [] \<Longrightarrow> sock_size (snd (recv n sock)) < sock_size sock"
  by (cases sock) (auto simp: recv_def sock_size_def)

lemma recv_loop_size_le:
  "sock_size (snd (recv_loop mLen sock sockBytes lastPacket)) \<le> sock_size sock"
proof (induction mLen sock sockBytes lastPacket rule: recv_loop.induct)
  case (1 mLen sock sockBytes lastPacket)
  show ?case
  proof (cases "int (length sockBytes) < mLen \<and> \<not> length lastPacket < READ_AT_ONCE")
    case True
    obtain packet sock' where r: "recv READ_AT_ONCE sock = (packet, sock')"
      by (cases "recv READ_AT_ONCE sock")
    have "sock_size sock' \<le> sock_size sock"
      using recv_size_le [of READ_AT_ONCE sock] r by simp
    moreover have "sock_size (snd (recv_loop mLen sock' (sockBytes @ packet) packet))
        \<le> sock_size sock'"
      using "1.IH" True r by simp
    ultimately show ?thesis
      using True r by (subst recv_loop.simps) simp
  next
    case False
    then show ?thesis by (subst recv_loop.simps) auto
  qed
qed

lemma handle_body_sock_after:
  "sock_after (handle_body read_hda sys conf body sock) = sock"
  by (simp add: handle_body_def Let_def split: sum.splits prod.splits)

lemma getResponse_size_less:
  assumes "result (getResponse read_hda sys sock conf) = Inr True"
  shows "sock_size (sock_after (getResponse read_hda sys sock conf)) < sock_size sock"
proof -
  obtain sockBytes sock1 where r: "recv READ_AT_ONCE sock = (sockBytes, sock1)"
    by (cases "recv READ_AT_ONCE sock")
  have ne: "sockBytes \<noteq> []"
    using assms r by (auto simp: getResponse_def)
  have less: "sock_size sock1 < sock_size sock"
    using recv_size_less [of READ_AT_ONCE sock] r ne by (simp add: READ_AT_ONCE_def)
  have le: "\<And>mLen. sock_size (snd (recv_loop mLen sock1 sockBytes sockBytes))
      \<le> sock_size sock1"
    by (rule recv_loop_size_le)
  have "sock_size (sock_after (getResponse read_hda sys sock conf)) \<le> sock_size sock1"
    using r ne le
    by (auto simp: getResponse_def handle_body_sock_after
          split: sum.splits prod.splits option.splits)
       (metis snd_conv)+
  then show ?thesis using less by simp
qed

text \<open>The responses of the calls the loop makes, in order; the last one ends it.\<close>

function main_loop :: "hda_decoder \<Rightarrow> os \<Rightarrow> socket \<Rightarrow> conf \<Rightarrow> response list" where
  "main_loop read_hda sys sock conf =
     (let r = getResponse read_hda sys sock conf
      in if result r = Inr True then r # main_loop read_hda sys (sock_after r) conf
         else [r])"
  by pat_completeness auto
termination
  by (relation "measure (\<lambda>(read_hda, sys, sock, conf). sock_size sock)")
     (auto simp: getResponse_size_less)

declare main_loop.simps [simp del]

section \<open>The accumulation loop\<close>

text \<open>
  Facts about lines 77 to 82 on a socket whose next reads are known: reads of exactly
  \<^verbatim>\<open>READ_AT_ONCE\<close> bytes (full reads), then one more read.
\<close>

lemma recv_whole: "length c \<le> n \<Longrightarrow> recv n (c # cs) = (c, cs)"
  by (simp add: recv_def)

lemma recv_loop_done:
  "\<not> int (length sockBytes) < mLen \<Longrightarrow>
     recv_loop mLen sock sockBytes lastPacket = (Some sockBytes, sock)"
  by (subst recv_loop.simps) simp

lemma recv_loop_short:
  "int (length sockBytes) < mLen \<Longrightarrow> length lastPacket < READ_AT_ONCE \<Longrightarrow>
     recv_loop mLen sock sockBytes lastPacket = (None, sock)"
  by (subst recv_loop.simps) simp

lemma recv_loop_step:
  "int (length sockBytes) < mLen \<Longrightarrow> \<not> length lastPacket < READ_AT_ONCE \<Longrightarrow>
   recv READ_AT_ONCE sock = (packet, sock') \<Longrightarrow>
     recv_loop mLen sock sockBytes lastPacket
       = recv_loop mLen sock' (sockBytes @ packet) packet"
  by (subst recv_loop.simps) simp

text \<open>A read that returned as many bytes as were asked for.\<close>

definition full :: "bytes \<Rightarrow> bool" where
  "full packet = (length packet = READ_AT_ONCE)"

lemma recv_loop_reads:
  assumes "list_all full fulls" and "length c \<le> READ_AT_ONCE"
    and "\<not> length lastPacket < READ_AT_ONCE"
    and "int (length sockBytes + length (concat fulls)) < mLen"
    and "mLen \<le> int (length sockBytes + length (concat fulls) + length c)"
  shows "recv_loop mLen (fulls @ c # rest) sockBytes lastPacket
           = (Some (sockBytes @ concat fulls @ c), rest)"
  using assms
proof (induction fulls arbitrary: sockBytes lastPacket)
  case Nil
  then have "recv_loop mLen (c # rest) sockBytes lastPacket
      = recv_loop mLen rest (sockBytes @ c) c"
    by (intro recv_loop_step) (simp_all add: recv_whole)
  also have "\<dots> = (Some (sockBytes @ c), rest)"
    using Nil by (intro recv_loop_done) simp
  finally show ?case by simp
next
  case (Cons f fs)
  then have f: "length f = READ_AT_ONCE" by (simp add: full_def)
  have "recv_loop mLen ((f # fs) @ c # rest) sockBytes lastPacket
      = recv_loop mLen (fs @ c # rest) (sockBytes @ f) f"
    using Cons.prems f by (intro recv_loop_step) (simp_all add: recv_whole)
  also have "\<dots> = (Some ((sockBytes @ f) @ concat fs @ c), rest)"
    using Cons.prems f by (intro Cons.IH) (simp_all add: add.assoc)
  finally show ?case by simp
qed

lemma recv_loop_incomplete:
  assumes "list_all full fulls" and "length c < READ_AT_ONCE"
    and "\<not> length lastPacket < READ_AT_ONCE"
    and "int (length sockBytes + length (concat fulls) + length c) < mLen"
  shows "recv_loop mLen (fulls @ c # rest) sockBytes lastPacket = (None, rest)"
  using assms
proof (induction fulls arbitrary: sockBytes lastPacket)
  case Nil
  then have "recv_loop mLen (c # rest) sockBytes lastPacket
      = recv_loop mLen rest (sockBytes @ c) c"
    by (intro recv_loop_step) (simp_all add: recv_whole)
  also have "\<dots> = (None, rest)"
    using Nil by (intro recv_loop_short) simp_all
  finally show ?case by simp
next
  case (Cons f fs)
  then have f: "length f = READ_AT_ONCE" by (simp add: full_def)
  have "recv_loop mLen ((f # fs) @ c # rest) sockBytes lastPacket
      = recv_loop mLen (fs @ c # rest) (sockBytes @ f) f"
    using Cons.prems f by (intro recv_loop_step) (simp_all add: recv_whole)
  also have "\<dots> = (None, rest)"
    using Cons.prems f by (intro Cons.IH) (simp_all add: add.assoc)
  finally show ?case by simp
qed

lemma recv_loop_closed:
  assumes "list_all full fulls"
    and "\<not> length lastPacket < READ_AT_ONCE"
    and "int (length sockBytes + length (concat fulls)) < mLen"
  shows "recv_loop mLen fulls sockBytes lastPacket = (None, [])"
  using assms
proof (induction fulls arbitrary: sockBytes lastPacket)
  case Nil
  then have "recv_loop mLen [] sockBytes lastPacket
      = recv_loop mLen [] (sockBytes @ []) []"
    by (intro recv_loop_step) (simp_all add: recv_def)
  also have "\<dots> = (None, [])"
    using Nil by (intro recv_loop_short) (simp_all add: READ_AT_ONCE_def)
  finally show ?case .
next
  case (Cons f fs)
  then have f: "length f = READ_AT_ONCE" by (simp add: full_def)
  have "recv_loop mLen (f # fs) sockBytes lastPacket
      = recv_loop mLen fs (sockBytes @ f) f"
    using Cons.prems f by (intro recv_loop_step) (simp_all add: recv_whole)
  also have "\<dots> = (None, [])"
    using Cons.prems f by (intro Cons.IH) (simp_all add: add.assoc)
  finally show ?case .
qed

lemma recv_loop_segment:
  "seg \<noteq> [] \<Longrightarrow> \<not> length lastPacket < READ_AT_ONCE \<Longrightarrow>
   mLen = int (length sockBytes + length seg) \<Longrightarrow>
     recv_loop mLen (seg # rest) sockBytes lastPacket = (Some (sockBytes @ seg), rest)"
proof (induction "length seg" arbitrary: seg sockBytes lastPacket rule: less_induct)
  case less
  show ?case
  proof (cases "length seg \<le> READ_AT_ONCE")
    case True
    have "recv_loop mLen (seg # rest) sockBytes lastPacket
        = recv_loop mLen rest (sockBytes @ seg) seg"
      using less.prems True by (intro recv_loop_step) (simp_all add: recv_whole)
    also have "\<dots> = (Some (sockBytes @ seg), rest)"
      using less.prems by (intro recv_loop_done) simp
    finally show ?thesis .
  next
    case False
    let ?p = "take READ_AT_ONCE seg" and ?s = "drop READ_AT_ONCE seg"
    have p: "length ?p = READ_AT_ONCE" using False by simp
    have s: "?s \<noteq> []" "length ?s < length seg"
      using False by (simp_all add: READ_AT_ONCE_def)
    have "recv_loop mLen (seg # rest) sockBytes lastPacket
        = recv_loop mLen (?s # rest) (sockBytes @ ?p) ?p"
      using less.prems False by (intro recv_loop_step) (simp_all add: recv_def)
    also have "\<dots> = (Some ((sockBytes @ ?p) @ ?s), rest)"
      using less.prems s p False by (intro less.hyps) simp_all
    finally show ?thesis by simp
  qed
qed

lemma read_int_append:
  "4 \<le> length f \<Longrightarrow>
     read_int (f @ x) = (case read_int f of Inl e \<Rightarrow> Inl e | Inr (n, r) \<Rightarrow> Inr (n, r @ x))"
  by (cases f rule: read_int.cases) (simp_all add: Let_def)

lemma getResponse_header:
  assumes "recv READ_AT_ONCE sock = (first, sock1)"
    and "5 \<le> length first" and "(of_char (first ! 4) :: nat) = 0"
    and "read_int first = Inr (mLen, r)"
  shows "getResponse read_hda sys sock conf =
     (case recv_loop mLen sock1 first first of
        (None, sock2) \<Rightarrow>
          \<lparr>result = Inr True, events = [],
           effects = [LogWarning ''Incomplete packet received. Ignoring.''],
           sock_after = sock2\<rparr>
      | (Some buf, sock2) \<Rightarrow> handle_body read_hda sys conf (drop 5 buf) sock2)"
  using assms by (auto simp: getResponse_def)

section \<open>One call of getResponse\<close>

text \<open>
  The checks of lines 67 to 75 on the first read: at least 5 bytes, the compression byte
  at offset 4 zero, and the declared length that \<^verbatim>\<open>read_int\<close> finds.
\<close>

definition frame_header :: "bytes \<Rightarrow> int \<Rightarrow> bool" where
  "frame_header first mLen =
     (5 \<le> length first \<and> (of_char (first ! 4) :: nat) = 0 \<and>
      (case read_int first of Inl e \<Rightarrow> False | Inr (n, rest) \<Rightarrow> n = mLen))"

text \<open>The outcome of a call that logs one warning and returns \<^verbatim>\<open>True\<close>.\<close>

definition retry :: "string \<Rightarrow> socket \<Rightarrow> response" where
  "retry warning sock =
     \<lparr>result = Inr True, events = [], effects = [LogWarning warning], sock_after = sock\<rparr>"

text \<open>
  The reads \<open>fulls\<close>, all full, and then \<open>c\<close> are the reads of one call that ends
  the accumulation loop normally: the first of them passes the checks with the declared
  length \<open>mLen\<close>, the buffer is below \<open>mLen\<close> before \<open>c\<close> arrives and not
  after.
\<close>

definition assembled_from :: "bytes list \<Rightarrow> bytes \<Rightarrow> int \<Rightarrow> bool" where
  "assembled_from fulls c mLen =
     (list_all full fulls \<and> length c \<le> READ_AT_ONCE \<and>
      frame_header (hd (fulls @ [c])) mLen \<and>
      (fulls = [] \<or> int (length (concat fulls)) < mLen) \<and>
      mLen \<le> int (length (concat fulls) + length c))"

text \<open>A frame whose declared length is its length, and which is not compressed.\<close>

definition valid_frame :: "bytes \<Rightarrow> bool" where
  "valid_frame frame = frame_header frame (int (length frame))"

lemma frame_header_append:
  "5 \<le> length f \<Longrightarrow> frame_header (f @ x) mLen = frame_header f mLen"
  by (auto simp: frame_header_def read_int_append nth_append split: sum.splits prod.splits)

lemma getResponse_frame_header:
  assumes "recv READ_AT_ONCE sock = (first, sock1)" and "frame_header first mLen"
  shows "getResponse read_hda sys sock conf =
     (case recv_loop mLen sock1 first first of
        (None, sock2) \<Rightarrow> retry ''Incomplete packet received. Ignoring.'' sock2
      | (Some buf, sock2) \<Rightarrow> handle_body read_hda sys conf (drop 5 buf) sock2)"
proof -
  from assms(2) obtain r where "read_int first = Inr (mLen, r)"
    by (auto simp: frame_header_def split: sum.splits)
  with assms show ?thesis
    by (simp add: getResponse_header frame_header_def retry_def
          split: prod.splits option.splits)
qed

lemma getResponse_assembled:
  assumes "assembled_from fulls c mLen"
  shows "getResponse read_hda sys (fulls @ c # rest) conf
           = handle_body read_hda sys conf (drop 5 (concat fulls @ c)) rest"
proof (cases fulls)
  case Nil
  with assms have h: "frame_header c mLen" and le: "length c \<le> READ_AT_ONCE"
    and m: "mLen \<le> int (length c)"
    by (simp_all add: assembled_from_def)
  have "recv_loop mLen rest c c = (Some c, rest)"
    using m by (intro recv_loop_done) simp
  then show ?thesis
    using Nil getResponse_frame_header [OF recv_whole [OF le] h] by simp
next
  case (Cons f fs)
  with assms have f: "length f = READ_AT_ONCE" and fs: "list_all full fs"
    and h: "frame_header f mLen" and le: "length c \<le> READ_AT_ONCE"
    and lo: "int (length f + length (concat fs)) < mLen"
    and hi: "mLen \<le> int (length f + length (concat fs) + length c)"
    by (simp_all add: assembled_from_def full_def)
  have r: "recv READ_AT_ONCE ((f # fs) @ c # rest) = (f, fs @ c # rest)"
    using f by (simp add: recv_whole)
  have "recv_loop mLen (fs @ c # rest) f f = (Some (f @ concat fs @ c), rest)"
    using fs le lo hi f by (intro recv_loop_reads) simp_all
  then show ?thesis
    using Cons getResponse_frame_header [OF r h] by simp
qed

lemma getResponse_incomplete:
  assumes "list_all full fulls" and "length c < READ_AT_ONCE"
    and "frame_header (hd (fulls @ [c])) mLen"
    and "int (length (concat fulls) + length c) < mLen"
  shows "getResponse read_hda sys (fulls @ c # rest) conf
           = retry ''Incomplete packet received. Ignoring.'' rest"
proof (cases fulls)
  case Nil
  with assms have h: "frame_header c mLen" and le: "length c \<le> READ_AT_ONCE"
    and m: "int (length c) < mLen"
    by simp_all
  have "recv_loop mLen rest c c = (None, rest)"
    using m assms(2) by (intro recv_loop_short) simp_all
  then show ?thesis
    using Nil getResponse_frame_header [OF recv_whole [OF le] h] by simp
next
  case (Cons f fs)
  with assms have f: "length f = READ_AT_ONCE" and fs: "list_all full fs"
    and h: "frame_header f mLen"
    and lo: "int (length f + length (concat fs) + length c) < mLen"
    by (simp_all add: full_def)
  have r: "recv READ_AT_ONCE ((f # fs) @ c # rest) = (f, fs @ c # rest)"
    using f by (simp add: recv_whole)
  have "recv_loop mLen (fs @ c # rest) f f = (None, rest)"
    using fs assms(2) lo f by (intro recv_loop_incomplete) simp_all
  then show ?thesis
    using Cons getResponse_frame_header [OF r h] by simp
qed

lemma getResponse_closed_midframe:
  assumes "fulls \<noteq> []" and "list_all full fulls"
    and "frame_header (hd fulls) mLen"
    and "int (length (concat fulls)) < mLen"
  shows "getResponse read_hda sys fulls conf
           = retry ''Incomplete packet received. Ignoring.'' []"
proof (cases fulls)
  case Nil
  with assms show ?thesis by simp
next
  case (Cons f fs)
  with assms have f: "length f = READ_AT_ONCE" and fs: "list_all full fs"
    and h: "frame_header f mLen"
    and lo: "int (length f + length (concat fs)) < mLen"
    by (simp_all add: full_def)
  have r: "recv READ_AT_ONCE (f # fs) = (f, fs)"
    using f by (simp add: recv_whole)
  have "recv_loop mLen fs f f = (None, [])"
    using fs lo f by (intro recv_loop_closed) simp_all
  then show ?thesis
    using Cons getResponse_frame_header [OF r h] by simp
qed

lemma getResponse_segment:
  assumes "valid_frame frame"
  shows "getResponse read_hda sys (frame # rest) conf
           = handle_body read_hda sys conf (drop 5 frame) rest"
proof (cases "length frame \<le> READ_AT_ONCE")
  case True
  have "assembled_from [] frame (int (length frame))"
    using assms True by (simp add: assembled_from_def valid_frame_def)
  from getResponse_assembled [OF this] show ?thesis by simp
next
  case False
  let ?p = "take READ_AT_ONCE frame" and ?s = "drop READ_AT_ONCE frame"
  have p: "length ?p = READ_AT_ONCE" using False by simp
  have "frame_header (?p @ ?s) (int (length frame))"
    using assms by (simp add: valid_frame_def)
  then have h: "frame_header ?p (int (length frame))"
    using p by (subst (asm) frame_header_append) (simp_all add: READ_AT_ONCE_def)
  have r: "recv READ_AT_ONCE (frame # rest) = (?p, ?s # rest)"
    using False by (simp add: recv_def)
  have "recv_loop (int (length frame)) (?s # rest) ?p ?p = (Some (?p @ ?s), rest)"
    using False p by (intro recv_loop_segment) simp_all
  then show ?thesis
    using getResponse_frame_header [OF r h] by simp
qed

lemma main_loop_continue:
  "result (getResponse read_hda sys sock conf) = Inr True \<Longrightarrow>
     main_loop read_hda sys sock conf
       = getResponse read_hda sys sock conf
           # main_loop read_hda sys (sock_after (getResponse read_hda sys sock conf)) conf"
  by (subst main_loop.simps) (simp add: Let_def)

lemma main_loop_stop:
  "result (getResponse read_hda sys sock conf) \<noteq> Inr True \<Longrightarrow>
     main_loop read_hda sys sock conf = [getResponse read_hda sys sock conf]"
  by (subst main_loop.simps) (simp add: Let_def)

lemma getResponse_closed:
  "fst (recv READ_AT_ONCE sock) = [] \<Longrightarrow>
     getResponse read_hda sys sock conf =
       \<lparr>result = Inr False, events = [], effects = [],
        sock_after = snd (recv READ_AT_ONCE sock)\<rparr>"
  by (cases "recv READ_AT_ONCE sock") (simp add: getResponse_def)

lemma getResponse_too_short:
  "c \<noteq> [] \<Longrightarrow> length c < 5 \<Longrightarrow>
     getResponse read_hda sys (c # rest) conf
       = retry ''Packet shorter than 5 bytes received. Ignoring.'' rest"
  by (simp add: getResponse_def recv_def READ_AT_ONCE_def retry_def)

lemma getResponse_compressed:
  "5 \<le> length c \<Longrightarrow> length c \<le> READ_AT_ONCE \<Longrightarrow> (of_char (c ! 4) :: nat) \<noteq> 0 \<Longrightarrow>
     getResponse read_hda sys (c # rest) conf
       = retry ''Received compressed message. Ignoring.'' rest"
  by (auto simp: getResponse_def recv_whole retry_def)

lemma short_reads_no_events:
  "list_all (\<lambda>c. c \<noteq> [] \<and> length c < 5) chunks \<Longrightarrow>
     concat (map events (main_loop read_hda sys chunks conf)) = []"
proof (induction chunks)
  case Nil
  have "result (getResponse read_hda sys [] conf) \<noteq> Inr True"
    by (simp add: getResponse_closed recv_def)
  then show ?case
    by (simp add: main_loop_stop getResponse_closed recv_def)
next
  case (Cons c cs)
  then have g: "getResponse read_hda sys (c # cs) conf
      = retry ''Packet shorter than 5 bytes received. Ignoring.'' cs"
    by (simp add: getResponse_too_short)
  then have "main_loop read_hda sys (c # cs) conf
      = retry ''Packet shorter than 5 bytes received. Ignoring.'' cs
          # main_loop read_hda sys cs conf"
    using main_loop_continue [of read_hda sys "c # cs" conf] by (simp add: retry_def)
  with Cons show ?case by (simp add: retry_def)
qed

section \<open>Routing of one decoded record\<close>

fun event_message :: "event \<Rightarrow> string" where
  "event_message (Highlight msg nick) = msg"
| "event_message (PrivateMessage msg nick) = msg"

fun event_nick :: "event \<Rightarrow> string" where
  "event_nick (Highlight msg nick) = nick"
| "event_nick (PrivateMessage msg nick) = nick"

text \<open>
  The nickname as the specification words it: the first tag with the prefix
  \<^verbatim>\<open>nick_\<close>, the prefix stripped; empty if there is none.
\<close>

definition first_nick :: "string list \<Rightarrow> string" where
  "first_nick tags =
     (case filter (\<lambda>tag. startswith tag ''nick_'') tags of
        [] \<Rightarrow> []
      | tag # _ \<Rightarrow> drop 5 tag)"

text \<open>The same with the last such tag.\<close>

definition last_nick :: "string list \<Rightarrow> string" where
  "last_nick tags =
     (case rev (filter (\<lambda>tag. startswith tag ''nick_'') tags) of
        [] \<Rightarrow> []
      | tag # _ \<Rightarrow> drop 5 tag)"

lemma nick_loop_append:
  "nick_loop (tags @ [tag]) nick =
     (if startswith tag ''nick_'' then drop 5 tag else nick_loop tags nick)"
  by (induction tags arbitrary: nick) auto

lemma nick_loop_last: "nick_loop tags [] = last_nick tags"
proof (induction tags rule: rev_induct)
  case Nil
  show ?case by (simp add: last_nick_def)
next
  case (snoc tag tags)
  then show ?case by (simp add: nick_loop_append last_nick_def)
qed

lemma notify_loop_eq:
  "notify_loop tags msg nick =
     (if \<exists>tag\<in>set tags. startswith tag ''notify_'' \<and> drop 7 tag = ''private''
      then [PrivateMessage msg nick] else [])"
  by (induction tags) (simp_all add: Let_def)

lemma hda_events_nick:
  "ev \<in> set (hda_events h) \<Longrightarrow> event_nick ev = nick_loop (tags_array h) []"
  by (auto simp: hda_events_def Let_def notify_loop_eq split: if_splits)

text \<open>
  C3, as the code has it. The nickname of every event a record yields is the last tag
  with the prefix \<^verbatim>\<open>nick_\<close>, the prefix stripped, and the empty string if no tag has
  the prefix: the loop at lines 99 to 101 assigns at every match and does not stop.
\<close>

theorem nickname_is_last_nick_tag:
  "\<forall>ev\<in>set (hda_events h). event_nick ev = last_nick (tags_array h)"
  by (simp add: hda_events_nick nick_loop_last)

theorem nickname_is_last_nick_tag_witness:
  "Highlight ''hi'' ''bob''
     \<in> set (hda_events \<lparr>message = ''hi'', tags_array = [''nick_alice'', ''nick_bob''],
          highlight = 1\<rparr>) \<and>
   event_nick (Highlight ''hi'' ''bob'') = last_nick [''nick_alice'', ''nick_bob'']"
proof -
  let ?h = "\<lparr>message = ''hi'', tags_array = [''nick_alice'', ''nick_bob''],
      highlight = 1\<rparr>"
  have mem: "Highlight ''hi'' ''bob'' \<in> set (hda_events ?h)"
    by (simp add: hda_events_def startswith_def)
  from nickname_is_last_nick_tag [of ?h] mem
  have "event_nick (Highlight ''hi'' ''bob'') = last_nick (tags_array ?h)"
    by blast
  with mem show ?thesis by simp
qed

text \<open>
  C3 as stated fails when two tags have the prefix: with the tags \<^verbatim>\<open>nick_alice\<close>,
  \<^verbatim>\<open>nick_bob\<close> the event carries \<^verbatim>\<open>bob\<close>, and the first such tag gives
  \<^verbatim>\<open>alice\<close>.
\<close>

theorem nickname_first_tag_counterexample:
  "hda_events \<lparr>message = ''hi'', tags_array = [''nick_alice'', ''nick_bob''],
      highlight = 1\<rparr> = [Highlight ''hi'' ''bob''] \<and>
   first_nick [''nick_alice'', ''nick_bob''] = ''alice''"
  by (simp add: hda_events_def first_nick_def startswith_def)

section \<open>Frames and reads\<close>

text \<open>
  An operating system for the examples: no path is expanded and no call raises.
\<close>

definition plain_os :: os where
  "plain_os = \<lparr>expanduser = (\<lambda>path. path), call_raises = (\<lambda>callArray. False)\<rparr>"

text \<open>
  One buffer line for the examples: the record, 92 bytes that stand for its hdata
  value, and the frame that carries them under the identifier
  \<^verbatim>\<open>_buffer_line_added\<close>. The frame is 122 bytes long and declares that length.
  Nothing below looks into the 92 bytes but \<open>sample_read_hda\<close>.
\<close>

definition line_record :: hda where
  "line_record = \<lparr>message = ''hi'', tags_array = [''nick_alice''], highlight = 1\<rparr>"

definition line_payload :: bytes where
  "line_payload =
     [CHR 0x00, CHR 0x00, CHR 0x00, CHR 0x09] @ ''line_data'' @
     [CHR 0x00, CHR 0x00, CHR 0x00, CHR 0x28] @ ''message:str,tags_array:arr,highlight:int'' @
     [CHR 0x00, CHR 0x00, CHR 0x00, CHR 0x01] @
     [CHR 0x00, CHR 0x00, CHR 0x00, CHR 0x02] @ ''hi'' @
     ''str'' @ [CHR 0x00, CHR 0x00, CHR 0x00, CHR 0x01] @
     [CHR 0x00, CHR 0x00, CHR 0x00, CHR 0x0A] @ ''nick_alice'' @
     [CHR 0x00, CHR 0x00, CHR 0x00, CHR 0x01]"

text \<open>
  An instance of the parameter \<open>read_hda\<close> for the examples. It knows one hdata
  value, \<open>line_payload\<close>: at the front of a body it yields \<open>line_record\<close> and
  the bytes after it; on any other body it raises.
\<close>

definition sample_read_hda :: hda_decoder where
  "sample_read_hda body =
     (if take (length line_payload) body = line_payload
      then Inr ([line_record], drop (length line_payload) body)
      else Inl UnconsumableDecode)"

definition line_frame :: bytes where
  "line_frame =
     [CHR 0x00, CHR 0x00, CHR 0x00, CHR 0x7A, CHR 0x00] @
     [CHR 0x00, CHR 0x00, CHR 0x00, CHR 0x12] @ ''_buffer_line_added'' @
     ''hda'' @ line_payload"

text \<open>A frame with another identifier, 21 bytes long.\<close>

definition nicklist_frame :: bytes where
  "nicklist_frame =
     [CHR 0x00, CHR 0x00, CHR 0x00, CHR 0x15, CHR 0x00] @
     [CHR 0x00, CHR 0x00, CHR 0x00, CHR 0x09] @ ''_nicklist'' @ ''hda''"

text \<open>A byte sequence arriving one byte per read.\<close>

fun bytewise :: "bytes \<Rightarrow> socket" where
  "bytewise [] = []"
| "bytewise (b # bs) = [b] # bytewise bs"

lemma bytewise_short: "list_all (\<lambda>c. c \<noteq> [] \<and> length c < 5) (bytewise bs)"
  by (induction bs) simp_all

lemma valid_line_frame: "valid_frame line_frame"
  by (simp add: valid_frame_def frame_header_def line_frame_def line_payload_def)

lemma line_frame_events:
  "handle_body sample_read_hda sys conf (drop 5 line_frame @ surplus) rest =
     \<lparr>result = Inr True, events = [Highlight ''hi'' ''alice''],
      effects = LogDebug ''Received buffer line.''
        # dispatch sys conf (Highlight ''hi'' ''alice''),
      sock_after = rest\<rparr>"
proof -
  have s: "read_str (drop 5 line_frame @ surplus)
      = Inr (''_buffer_line_added'', ''hda'' @ line_payload @ surplus)"
    by (simp add: read_str_def line_frame_def)
  have h: "sample_read_hda (line_payload @ surplus) = Inr ([line_record], surplus)"
    by (simp add: sample_read_hda_def)
  have e: "hda_events line_record = [Highlight ''hi'' ''alice'']"
    by (simp add: hda_events_def line_record_def startswith_def)
  show ?thesis
    unfolding handle_body_def s by (simp add: h e)
qed

text \<open>
  C1 as stated fails. The frame \<open>line_frame\<close> is valid; read at once it yields the
  Highlight event of its record; read one byte at a time, the first call of
  \<^verbatim>\<open>getResponse\<close> finds fewer than 5 bytes and returns at line 69 with no event,
  and so does every later call of the read loop: the loop as a whole emits nothing.
\<close>

theorem small_reads_counterexample:
  "valid_frame line_frame \<and>
   events (getResponse sample_read_hda plain_os [line_frame] Map.empty)
     = [Highlight ''hi'' ''alice''] \<and>
   events (getResponse sample_read_hda plain_os (bytewise line_frame) Map.empty) = [] \<and>
   concat (map events (main_loop sample_read_hda plain_os (bytewise line_frame) Map.empty))
     = []"
proof -
  have a: "events (getResponse sample_read_hda plain_os [line_frame] Map.empty)
      = [Highlight ''hi'' ''alice'']"
    using getResponse_segment [OF valid_line_frame, of sample_read_hda plain_os "[]" Map.empty]
      line_frame_events [of plain_os Map.empty "[]" "[]"]
    by simp
  have "bytewise line_frame = [CHR 0x00] # bytewise (tl line_frame)"
    by (simp add: line_frame_def)
  then have b: "events (getResponse sample_read_hda plain_os (bytewise line_frame) Map.empty)
      = []"
    by (simp add: getResponse_too_short retry_def)
  show ?thesis
    using valid_line_frame a b
    by (simp add: short_reads_no_events bytewise_short)
qed

text \<open>
  C1, as the code has it. Let a valid frame be delivered in successive reads of which
  every one but the last returns a full chunk of \<^verbatim>\<open>READ_AT_ONCE\<close> bytes, the last
  one being non-empty. Then the call of \<^verbatim>\<open>getResponse\<close> assembles the whole frame
  and its outcome (returned value, events, effects and socket left behind) is the
  outcome of decoding and routing the frame's body, everything past offset 5; this is
  also the outcome when the whole frame is available to the call at once. The check at
  line 78 abandons the frame after any shorter read that leaves the buffer below the
  declared length.
\<close>

theorem full_reads_same_as_single_read:
  assumes "valid_frame frame" and "concat fulls @ c = frame"
    and "list_all full fulls" and "c \<noteq> []" and "length c \<le> READ_AT_ONCE"
  shows "getResponse read_hda sys (fulls @ c # rest) conf
           = handle_body read_hda sys conf (drop 5 frame) rest \<and>
         getResponse read_hda sys (frame # rest) conf
           = handle_body read_hda sys conf (drop 5 frame) rest"
proof -
  have h: "frame_header (hd (fulls @ [c])) (int (length frame))"
  proof (cases fulls)
    case Nil
    with assms show ?thesis by (simp add: valid_frame_def)
  next
    case (Cons f fs)
    with assms have "length f = READ_AT_ONCE" and "frame = f @ (concat fs @ c)"
      by (auto simp: full_def)
    with assms(1) Cons show ?thesis
      by (simp add: valid_frame_def frame_header_append READ_AT_ONCE_def)
  qed
  have "length frame = length (concat fulls) + length c"
    using assms(2) by (metis length_append)
  with h assms have "assembled_from fulls c (int (length frame))"
    by (simp add: assembled_from_def)
  from getResponse_assembled [OF this] getResponse_segment [OF assms(1)] assms(2)
  show ?thesis by simp
qed

text \<open>
  A frame of 4100 bytes in two parts, its first 4096 bytes and its last 4: the buffer
  line of \<open>line_frame\<close>, followed by zero bytes up to the declared length.
\<close>

definition long_first :: bytes where
  "long_first =
     [CHR 0x00, CHR 0x00, CHR 0x10, CHR 0x04, CHR 0x00] @
     [CHR 0x00, CHR 0x00, CHR 0x00, CHR 0x12] @ ''_buffer_line_added'' @
     ''hda'' @ line_payload @ replicate 3974 (CHR 0x00)"

definition long_last :: bytes where
  "long_last = replicate 4 (CHR 0x00)"

lemma long_first_length: "length long_first = 4096"
  by (simp add: long_first_def line_payload_def)

lemma long_first_header: "frame_header long_first 4100"
  by (simp add: frame_header_def long_first_def)

theorem full_reads_same_as_single_read_witness:
  "valid_frame (long_first @ long_last) \<and>
   getResponse sample_read_hda plain_os [long_first, long_last] Map.empty =
     \<lparr>result = Inr True, events = [Highlight ''hi'' ''alice''],
      effects = [LogDebug ''Received buffer line.''], sock_after = []\<rparr>"
proof -
  have v: "valid_frame (long_first @ long_last)"
    by (simp add: valid_frame_def frame_header_append long_first_header long_first_length
          long_last_def)
  have c: "concat [long_first] @ long_last = long_first @ long_last" by simp
  have f: "list_all full [long_first]"
    by (simp add: full_def long_first_length READ_AT_ONCE_def)
  have n: "long_last \<noteq> []" and l: "length long_last \<le> READ_AT_ONCE"
    by (simp_all add: long_last_def READ_AT_ONCE_def)
  have b: "drop 5 (long_first @ long_last)
      = drop 5 line_frame @ (replicate 3974 (CHR 0x00) @ long_last)"
    by (simp add: long_first_def line_frame_def)
  have e: "handle_body sample_read_hda plain_os Map.empty
        (drop 5 (long_first @ long_last)) []
      = \<lparr>result = Inr True, events = [Highlight ''hi'' ''alice''],
         effects = [LogDebug ''Received buffer line.''], sock_after = []\<rparr>"
    unfolding b
    by (simp only: line_frame_events) (simp add: gotHighlight_def)
  from full_reads_same_as_single_read [OF v c f n l, of sample_read_hda plain_os "[]"
      Map.empty] e v
  show ?thesis by simp
qed

text \<open>
  A frame of 4100 bytes in two parts: its first 4096 bytes and its last 4. Its
  identifier is \<^verbatim>\<open>x\<close>.
\<close>

definition big_first :: bytes where
  "big_first =
     [CHR 0x00, CHR 0x00, CHR 0x10, CHR 0x04, CHR 0x00,
      CHR 0x00, CHR 0x00, CHR 0x00, CHR 0x01, CHR ''x''] @ replicate 4086 (CHR 0x00)"

definition big_last :: bytes where
  "big_last = replicate 4 (CHR 0x00)"

lemma big_first_header: "frame_header big_first 4100"
  by (simp add: frame_header_def big_first_def)

lemma big_first_full: "full big_first"
  by (simp add: full_def big_first_def READ_AT_ONCE_def)

text \<open>
  C5. Let the reads of one call assemble a frame. If the identifier that leads its body
  is not \<^verbatim>\<open>_buffer_line_added\<close>, the call emits no event, has no effect and
  returns \<^verbatim>\<open>True\<close>. If the identifier matches and the type tag after it is not
  \<^verbatim>\<open>hda\<close>, the call emits no event, logs a debug line and a warning, and returns
  \<^verbatim>\<open>True\<close>.
\<close>

theorem other_frames_ignored:
  assumes "assembled_from fulls c mLen"
  shows "(read_str (drop 5 (concat fulls @ c)) = Inr (ident, after_ident) \<and>
          ident \<noteq> ''_buffer_line_added'' \<longrightarrow>
            getResponse read_hda sys (fulls @ c # rest) conf =
              \<lparr>result = Inr True, events = [], effects = [], sock_after = rest\<rparr>) \<and>
         (read_str (drop 5 (concat fulls @ c)) = Inr (''_buffer_line_added'', after_ident) \<and>
          read_typ after_ident = Inr (dataTyp, after_typ) \<and> dataTyp \<noteq> ''hda'' \<longrightarrow>
            getResponse read_hda sys (fulls @ c # rest) conf =
              \<lparr>result = Inr True, events = [],
               effects = [LogDebug ''Received buffer line.'',
                 LogWarning ''Unknown buffer_line_added format. Ignoring.''],
               sock_after = rest\<rparr>)"
  by (simp add: getResponse_assembled [OF assms] handle_body_def)

text \<open>A frame with the identifier of interest and the type tag \<^verbatim>\<open>str\<close>.\<close>

definition unknown_format_frame :: bytes where
  "unknown_format_frame =
     [CHR 0x00, CHR 0x00, CHR 0x00, CHR 0x1E, CHR 0x00] @
     [CHR 0x00, CHR 0x00, CHR 0x00, CHR 0x12] @ ''_buffer_line_added'' @ ''str''"

lemma single_read_assembled:
  "valid_frame frame \<Longrightarrow> length frame \<le> READ_AT_ONCE \<Longrightarrow>
     assembled_from [] frame (int (length frame))"
  by (simp add: assembled_from_def valid_frame_def)

lemma valid_nicklist_frame: "valid_frame nicklist_frame"
  by (simp add: valid_frame_def frame_header_def nicklist_frame_def)

theorem other_frames_ignored_witness:
  "getResponse sample_read_hda plain_os [nicklist_frame] Map.empty =
     \<lparr>result = Inr True, events = [], effects = [], sock_after = []\<rparr> \<and>
   getResponse sample_read_hda plain_os [unknown_format_frame] Map.empty =
     \<lparr>result = Inr True, events = [],
      effects = [LogDebug ''Received buffer line.'',
        LogWarning ''Unknown buffer_line_added format. Ignoring.''],
      sock_after = []\<rparr>"
proof -
  have a1: "assembled_from [] nicklist_frame 21"
    using single_read_assembled [OF valid_nicklist_frame]
    by (simp add: nicklist_frame_def READ_AT_ONCE_def)
  have s1: "read_str (drop 5 (concat [] @ nicklist_frame)) = Inr (''_nicklist'', ''hda'')"
    by (simp add: read_str_def nicklist_frame_def)
  have a2: "assembled_from [] unknown_format_frame 30"
    by (simp add: assembled_from_def frame_header_def unknown_format_frame_def
          READ_AT_ONCE_def)
  have s2: "read_str (drop 5 (concat [] @ unknown_format_frame))
      = Inr (''_buffer_line_added'', ''str'')"
    by (simp add: read_str_def unknown_format_frame_def)
  have t2: "read_typ ''str'' = Inr (''str'', [])" by simp
  from other_frames_ignored [OF a1, where ident = "''_nicklist''" and after_ident = "''hda''"
      and read_hda = sample_read_hda and sys = plain_os and rest = "[]"
      and conf = Map.empty] s1
  have r1: "getResponse sample_read_hda plain_os [nicklist_frame] Map.empty =
     \<lparr>result = Inr True, events = [], effects = [], sock_after = []\<rparr>"
    by simp
  from other_frames_ignored [OF a2, where after_ident = "''str''" and dataTyp = "''str''"
      and after_typ = "[]" and read_hda = sample_read_hda and sys = plain_os and rest = "[]"
      and conf = Map.empty] s2 t2
  have r2: "getResponse sample_read_hda plain_os [unknown_format_frame] Map.empty =
     \<lparr>result = Inr True, events = [],
      effects = [LogDebug ''Received buffer line.'',
        LogWarning ''Unknown buffer_line_added format. Ignoring.''],
      sock_after = []\<rparr>"
    by simp
  from r1 r2 show ?thesis by simp
qed

text \<open>
  C6. A first read of 1 to 4 bytes, a first read whose byte at offset 4 is not zero, and
  a read shorter than \<^verbatim>\<open>READ_AT_ONCE\<close> that leaves the buffer below the declared
  length (after any number of full reads) each end the call with one warning, no event
  and the value \<^verbatim>\<open>True\<close>. The outcome does not depend on the decoders, the bytes
  read are not kept (the socket is left at the reads that follow), and the read loop
  goes on with the next call. A first read of no bytes is the closed stream of C7.
\<close>

theorem malformed_frame_discarded:
  "(c \<noteq> [] \<and> length c < 5 \<longrightarrow>
      getResponse read_hda sys (c # rest) conf
        = retry ''Packet shorter than 5 bytes received. Ignoring.'' rest) \<and>
   (5 \<le> length c \<and> length c \<le> READ_AT_ONCE \<and> (of_char (c ! 4) :: nat) \<noteq> 0 \<longrightarrow>
      getResponse read_hda sys (c # rest) conf
        = retry ''Received compressed message. Ignoring.'' rest) \<and>
   (list_all full fulls \<and> length c < READ_AT_ONCE \<and>
    frame_header (hd (fulls @ [c])) mLen \<and>
    int (length (concat fulls) + length c) < mLen \<longrightarrow>
      getResponse read_hda sys (fulls @ c # rest) conf
        = retry ''Incomplete packet received. Ignoring.'' rest) \<and>
   (\<forall>warning. getResponse read_hda sys sock conf = retry warning rest \<longrightarrow>
      main_loop read_hda sys sock conf
        = retry warning rest # main_loop read_hda sys rest conf)"
proof (intro conjI impI allI)
  assume "c \<noteq> [] \<and> length c < 5"
  then show "getResponse read_hda sys (c # rest) conf
      = retry ''Packet shorter than 5 bytes received. Ignoring.'' rest"
    by (simp add: getResponse_too_short)
next
  assume "5 \<le> length c \<and> length c \<le> READ_AT_ONCE \<and> (of_char (c ! 4) :: nat) \<noteq> 0"
  then show "getResponse read_hda sys (c # rest) conf
      = retry ''Received compressed message. Ignoring.'' rest"
    by (simp add: getResponse_compressed)
next
  assume "list_all full fulls \<and> length c < READ_AT_ONCE \<and>
    frame_header (hd (fulls @ [c])) mLen \<and>
    int (length (concat fulls) + length c) < mLen"
  then show "getResponse read_hda sys (fulls @ c # rest) conf
      = retry ''Incomplete packet received. Ignoring.'' rest"
    by (intro getResponse_incomplete) blast+
next
  fix warning
  assume "getResponse read_hda sys sock conf = retry warning rest"
  then show "main_loop read_hda sys sock conf
      = retry warning rest # main_loop read_hda sys rest conf"
    using main_loop_continue [of read_hda sys sock conf] by (simp add: retry_def)
qed

text \<open>A frame of 6 bytes whose compression byte is 1.\<close>

definition compressed_frame :: bytes where
  "compressed_frame = [CHR 0x00, CHR 0x00, CHR 0x00, CHR 0x06, CHR 0x01, CHR 0x78]"

theorem malformed_frame_discarded_witness:
  "getResponse sample_read_hda plain_os [''abc'', line_frame] Map.empty
     = retry ''Packet shorter than 5 bytes received. Ignoring.'' [line_frame] \<and>
   getResponse sample_read_hda plain_os [compressed_frame, line_frame] Map.empty
     = retry ''Received compressed message. Ignoring.'' [line_frame] \<and>
   getResponse sample_read_hda plain_os [big_first, take 3 big_last, line_frame] Map.empty
     = retry ''Incomplete packet received. Ignoring.'' [line_frame] \<and>
   main_loop sample_read_hda plain_os [''abc'', line_frame] Map.empty
     = retry ''Packet shorter than 5 bytes received. Ignoring.'' [line_frame]
         # main_loop sample_read_hda plain_os [line_frame] Map.empty"
proof -
  note m = malformed_frame_discarded [where read_hda = sample_read_hda and sys = plain_os
      and conf = Map.empty and rest = "[line_frame]"]
  have r1: "getResponse sample_read_hda plain_os [''abc'', line_frame] Map.empty
     = retry ''Packet shorter than 5 bytes received. Ignoring.'' [line_frame]"
    using m [of "''abc''"] by simp
  have r2: "getResponse sample_read_hda plain_os [compressed_frame, line_frame] Map.empty
     = retry ''Received compressed message. Ignoring.'' [line_frame]"
    using m [of compressed_frame] by (simp add: compressed_frame_def READ_AT_ONCE_def)
  have h: "list_all full [big_first] \<and> length (take 3 big_last) < READ_AT_ONCE \<and>
      frame_header (hd ([big_first] @ [take 3 big_last])) 4100 \<and>
      int (length (concat [big_first]) + length (take 3 big_last)) < 4100"
    using big_first_full big_first_header
    by (simp add: full_def big_last_def READ_AT_ONCE_def)
  have r3: "getResponse sample_read_hda plain_os [big_first, take 3 big_last, line_frame]
      Map.empty = retry ''Incomplete packet received. Ignoring.'' [line_frame]"
    using m [of "take 3 big_last" "[big_first]" 4100] h by simp
  have r4: "main_loop sample_read_hda plain_os [''abc'', line_frame] Map.empty
     = retry ''Packet shorter than 5 bytes received. Ignoring.'' [line_frame]
         # main_loop sample_read_hda plain_os [line_frame] Map.empty"
    using m [of _ _ _ "[''abc'', line_frame]"] r1 by blast
  from r1 r2 r3 r4 show ?thesis by simp
qed

text \<open>
  C7. When the first read of a call returns no bytes, \<^verbatim>\<open>getResponse\<close> returns
  \<^verbatim>\<open>False\<close> with no event and no effect, and the read loop of \<^verbatim>\<open>main\<close> ends
  with that call.
\<close>

theorem closed_stream_ends_loop:
  assumes "fst (recv READ_AT_ONCE sock) = []"
  shows "getResponse read_hda sys sock conf =
           \<lparr>result = Inr False, events = [], effects = [],
            sock_after = snd (recv READ_AT_ONCE sock)\<rparr> \<and>
         main_loop read_hda sys sock conf = [getResponse read_hda sys sock conf]"
proof -
  have r: "getResponse read_hda sys sock conf =
           \<lparr>result = Inr False, events = [], effects = [],
            sock_after = snd (recv READ_AT_ONCE sock)\<rparr>"
    using assms by (rule getResponse_closed)
  then have "result (getResponse read_hda sys sock conf) \<noteq> Inr True" by simp
  then have "main_loop read_hda sys sock conf = [getResponse read_hda sys sock conf]"
    by (rule main_loop_stop)
  with r show ?thesis by simp
qed

theorem closed_stream_ends_loop_witness:
  "main_loop sample_read_hda plain_os [] Map.empty =
     [\<lparr>result = Inr False, events = [], effects = [], sock_after = []\<rparr>]"
proof -
  have "fst (recv READ_AT_ONCE []) = []" by (simp add: recv_def)
  from closed_stream_ends_loop [OF this, of sample_read_hda plain_os Map.empty]
  show ?thesis by (simp add: recv_def)
qed

section \<open>The handler programs\<close>

text \<open>The argument lists of the calls of \<^verbatim>\<open>subprocess.call\<close> among some effects.\<close>

fun subprocess_calls :: "effect list \<Rightarrow> string list list" where
  "subprocess_calls [] = []"
| "subprocess_calls (SubprocessCall args # es) = args # subprocess_calls es"
| "subprocess_calls (e # es) = subprocess_calls es"

lemma subprocess_calls_append:
  "subprocess_calls (es @ fs) = subprocess_calls es @ subprocess_calls fs"
  by (induction es rule: subprocess_calls.induct) simp_all

lemma subprocess_calls_concat:
  "subprocess_calls (concat (map f xs)) = concat (map (\<lambda>x. subprocess_calls (f x)) xs)"
  by (induction xs) (simp_all add: subprocess_calls_append)

lemma handle_body_calls:
  "subprocess_calls (effects (handle_body read_hda sys conf body sock)) =
     concat (map (\<lambda>ev. subprocess_calls (dispatch sys conf ev))
       (events (handle_body read_hda sys conf body sock)))"
  by (simp add: handle_body_def Let_def subprocess_calls_concat
        split: sum.splits prod.splits)

lemma getResponse_calls:
  "subprocess_calls (effects (getResponse read_hda sys sock conf)) =
     concat (map (\<lambda>ev. subprocess_calls (dispatch sys conf ev))
       (events (getResponse read_hda sys sock conf)))"
  by (simp add: getResponse_def handle_body_calls
        split: sum.splits prod.splits option.splits)

text \<open>
  C8. For a Highlight event and a configured \<^verbatim>\<open>highlight-action\<close>, and for a
  PrivateMessage event and a configured \<^verbatim>\<open>privmsg-action\<close>, exactly one program is
  called: the configured one (its path expanded) with two arguments, the message and
  then the nickname. When the option is absent, \<^verbatim>\<open>None\<close> or empty, the handler does
  nothing: no call and no log entry. The calls one \<^verbatim>\<open>getResponse\<close> makes are those of
  its events, in order.
\<close>

theorem handler_invocation:
  "(conf ''highlight-action'' = Some (Some prog) \<and> prog \<noteq> [] \<longrightarrow>
      subprocess_calls (dispatch sys conf (Highlight msg nick))
        = [[expandPaths sys prog, msg, nick]]) \<and>
   (conf ''privmsg-action'' = Some (Some prog) \<and> prog \<noteq> [] \<longrightarrow>
      subprocess_calls (dispatch sys conf (PrivateMessage msg nick))
        = [[expandPaths sys prog, msg, nick]]) \<and>
   (conf ''highlight-action'' \<in> {None, Some None, Some (Some [])} \<longrightarrow>
      dispatch sys conf (Highlight msg nick) = []) \<and>
   (conf ''privmsg-action'' \<in> {None, Some None, Some (Some [])} \<longrightarrow>
      dispatch sys conf (PrivateMessage msg nick) = []) \<and>
   subprocess_calls (effects (getResponse read_hda sys sock conf)) =
     concat (map (\<lambda>ev. subprocess_calls (dispatch sys conf ev))
       (events (getResponse read_hda sys sock conf)))"
  by (auto simp: gotHighlight_def gotPrivMsg_def safeCall_def getResponse_calls)

text \<open>Two configurations for the examples.\<close>

definition notify_conf :: conf where
  "notify_conf =
     [''highlight-action'' \<mapsto> Some ''/usr/bin/notify-send'', ''privmsg-action'' \<mapsto> None]"

definition mail_conf :: conf where
  "mail_conf = [''privmsg-action'' \<mapsto> Some ''/usr/bin/mail'']"

theorem handler_invocation_witness:
  "subprocess_calls (dispatch plain_os notify_conf (Highlight ''hi'' ''alice''))
     = [[''/usr/bin/notify-send'', ''hi'', ''alice'']] \<and>
   subprocess_calls (dispatch plain_os mail_conf (PrivateMessage ''hi'' ''bob''))
     = [[''/usr/bin/mail'', ''hi'', ''bob'']] \<and>
   dispatch plain_os mail_conf (Highlight ''hi'' ''alice'') = [] \<and>
   dispatch plain_os notify_conf (PrivateMessage ''hi'' ''bob'') = [] \<and>
   subprocess_calls (effects (getResponse sample_read_hda plain_os [line_frame] notify_conf))
     = [[''/usr/bin/notify-send'', ''hi'', ''alice'']]"
proof -
  have h: "notify_conf ''highlight-action'' = Some (Some ''/usr/bin/notify-send'')"
    and p: "mail_conf ''privmsg-action'' = Some (Some ''/usr/bin/mail'')"
    and nh: "mail_conf ''highlight-action'' \<in> {None, Some None, Some (Some [])}"
    and np: "notify_conf ''privmsg-action'' \<in> {None, Some None, Some (Some [])}"
    by (simp_all add: notify_conf_def mail_conf_def)
  have e: "expandPaths plain_os path = path" for path
    by (simp add: expandPaths_def plain_os_def)
  have ev: "events (getResponse sample_read_hda plain_os [line_frame] notify_conf)
      = [Highlight ''hi'' ''alice'']"
    using getResponse_segment [OF valid_line_frame, of sample_read_hda plain_os "[]" notify_conf]
      line_frame_events [of plain_os notify_conf "[]" "[]"]
    by simp
  have r1: "subprocess_calls (dispatch plain_os notify_conf (Highlight ''hi'' ''alice''))
     = [[''/usr/bin/notify-send'', ''hi'', ''alice'']]"
    using handler_invocation [where conf = notify_conf and prog = "''/usr/bin/notify-send''"
        and sys = plain_os and msg = "''hi''" and nick = "''alice''"] h e
    by simp
  have r2: "subprocess_calls (dispatch plain_os mail_conf (PrivateMessage ''hi'' ''bob''))
     = [[''/usr/bin/mail'', ''hi'', ''bob'']]"
    using handler_invocation [where conf = mail_conf and prog = "''/usr/bin/mail''"
        and sys = plain_os and msg = "''hi''" and nick = "''bob''"] p e
    by simp
  have r3: "dispatch plain_os mail_conf (Highlight ''hi'' ''alice'') = []"
    using handler_invocation [where conf = mail_conf and sys = plain_os
        and msg = "''hi''" and nick = "''alice''"] nh
    by blast
  have r4: "dispatch plain_os notify_conf (PrivateMessage ''hi'' ''bob'') = []"
    using handler_invocation [where conf = notify_conf and sys = plain_os
        and msg = "''hi''" and nick = "''bob''"] np
    by blast
  have r5: "subprocess_calls
      (effects (getResponse sample_read_hda plain_os [line_frame] notify_conf))
     = [[''/usr/bin/notify-send'', ''hi'', ''alice'']]"
    using handler_invocation [where conf = notify_conf and sys = plain_os
        and read_hda = sample_read_hda and sock = "[line_frame]"] ev r1
    by simp
  from r1 r2 r3 r4 r5 show ?thesis by simp
qed

section \<open>The records of a decoded frame\<close>

text \<open>
  The body of a frame decodes to the records \<open>hdaData\<close>: its identifier is
  \<^verbatim>\<open>_buffer_line_added\<close>, the type tag after it is \<^verbatim>\<open>hda\<close>, and \<open>read_hda\<close>
  returns \<open>hdaData\<close> on what follows.
\<close>

definition decodes_to :: "hda_decoder \<Rightarrow> bytes \<Rightarrow> hda list \<Rightarrow> bool" where
  "decodes_to read_hda body hdaData =
     (case read_str body of
        Inl e \<Rightarrow> False
      | Inr (ident, after_ident) \<Rightarrow>
          ident = ''_buffer_line_added'' \<and>
          (case read_typ after_ident of
             Inl e \<Rightarrow> False
           | Inr (dataTyp, after_typ) \<Rightarrow>
               dataTyp = ''hda'' \<and>
               (case read_hda after_typ of
                  Inl e \<Rightarrow> False
                | Inr (records, after_hda) \<Rightarrow> records = hdaData)))"

lemma handle_body_decoded:
  assumes "decodes_to read_hda body hdaData"
  shows "handle_body read_hda sys conf body rest =
     \<lparr>result = Inr True, events = concat (map hda_events hdaData),
      effects = LogDebug ''Received buffer line.''
        # concat (map (dispatch sys conf) (concat (map hda_events hdaData))),
      sock_after = rest\<rparr>"
proof (cases "read_str body")
  case (Inl e)
  with assms show ?thesis by (simp add: decodes_to_def)
next
  case (Inr p)
  obtain ident a where p: "p = (ident, a)" by (cases p)
  with Inr assms have i: "ident = ''_buffer_line_added''"
    by (simp add: decodes_to_def)
  show ?thesis
  proof (cases "read_typ a")
    case (Inl e)
    with Inr p i assms show ?thesis by (simp add: decodes_to_def)
  next
    case tagged: (Inr q)
    obtain dataTyp b where q: "q = (dataTyp, b)" by (cases q)
    with tagged Inr p i assms have t: "dataTyp = ''hda''"
      by (simp add: decodes_to_def)
    show ?thesis
    proof (cases "read_hda b")
      case (Inl e)
      with tagged q t Inr p i assms show ?thesis by (simp add: decodes_to_def)
    next
      case recs: (Inr r)
      obtain records after_hda where r: "r = (records, after_hda)" by (cases r)
      with recs tagged q t Inr p i assms have "records = hdaData"
        by (simp add: decodes_to_def)
      with recs r tagged q t Inr p i show ?thesis
        by (simp add: handle_body_def Let_def)
    qed
  qed
qed

lemma getResponse_decoded:
  assumes "assembled_from fulls c mLen"
    and "decodes_to read_hda (drop 5 (concat fulls @ c)) hdaData"
  shows "getResponse read_hda sys (fulls @ c # rest) conf =
     \<lparr>result = Inr True, events = concat (map hda_events hdaData),
      effects = LogDebug ''Received buffer line.''
        # concat (map (dispatch sys conf) (concat (map hda_events hdaData))),
      sock_after = rest\<rparr>"
  unfolding getResponse_assembled [OF assms(1)] by (rule handle_body_decoded [OF assms(2)])

text \<open>
  An instance of the parameter \<open>read_hda\<close> that knows one hdata value, and a frame
  of 47 bytes whose 17 bytes of hdata stand for three buffer lines.
\<close>

definition known_read_hda :: "bytes \<Rightarrow> hda list \<Rightarrow> hda_decoder" where
  "known_read_hda payload records body =
     (if take (length payload) body = payload
      then Inr (records, drop (length payload) body)
      else Inl UnconsumableDecode)"

definition lines_records :: "hda list" where
  "lines_records =
     [\<lparr>message = ''hi'', tags_array = [''nick_alice'', ''notify_private''], highlight = 1\<rparr>,
      \<lparr>message = ''psst'', tags_array = [''nick_bob'', ''notify_private''], highlight = 0\<rparr>,
      \<lparr>message = ''hello'', tags_array = [''nick_carol'', ''notify_message''],
        highlight = 0\<rparr>]"

definition lines_payload :: bytes where
  "lines_payload =
     [CHR 0x00, CHR 0x00, CHR 0x00, CHR 0x09] @ ''line_data'' @
     [CHR 0x00, CHR 0x00, CHR 0x00, CHR 0x03]"

definition lines_frame :: bytes where
  "lines_frame =
     [CHR 0x00, CHR 0x00, CHR 0x00, CHR 0x2F, CHR 0x00] @
     [CHR 0x00, CHR 0x00, CHR 0x00, CHR 0x12] @ ''_buffer_line_added'' @
     ''hda'' @ lines_payload"

lemma lines_frame_assembled: "assembled_from [] lines_frame 47"
  by (simp add: assembled_from_def frame_header_def lines_frame_def lines_payload_def
        READ_AT_ONCE_def)

lemma lines_frame_decodes:
  "decodes_to (known_read_hda lines_payload lines_records)
     (drop 5 (concat [] @ lines_frame)) lines_records"
  by (simp add: decodes_to_def read_str_def lines_frame_def known_read_hda_def)

text \<open>
  C2, as the code has it. Let one call of \<^verbatim>\<open>getResponse\<close> assemble a frame whose
  body decodes to some records. For every record among them whose \<^verbatim>\<open>highlight\<close> is
  greater than zero, the events of the call are the events of the records before it,
  then exactly one event for the record, the Highlight event with its message and the
  nickname the tag loop computed, then the events of the records after it: no
  PrivateMessage event is emitted for the record, whatever its tags are. The test at
  line 103 is \<^verbatim>\<open>hda['highlight'] > 0\<close>.
\<close>

theorem highlight_positive_takes_precedence:
  assumes "assembled_from fulls c mLen"
    and "decodes_to read_hda (drop 5 (concat fulls @ c)) (before @ h # after)"
    and "0 < highlight h"
  shows "events (getResponse read_hda sys (fulls @ c # rest) conf) =
           concat (map hda_events before)
           @ [Highlight (message h) (nick_loop (tags_array h) [])]
           @ concat (map hda_events after)"
  using assms(3) by (simp add: getResponse_decoded [OF assms(1,2)] hda_events_def)

theorem highlight_positive_takes_precedence_witness:
  "events (getResponse (known_read_hda lines_payload lines_records) plain_os [lines_frame]
      Map.empty) = [Highlight ''hi'' ''alice'', PrivateMessage ''psst'' ''bob'']"
proof -
  let ?h = "\<lparr>message = ''hi'', tags_array = [''nick_alice'', ''notify_private''],
      highlight = 1\<rparr>"
  let ?after = "[\<lparr>message = ''psst'', tags_array = [''nick_bob'', ''notify_private''],
        highlight = 0\<rparr>,
      \<lparr>message = ''hello'', tags_array = [''nick_carol'', ''notify_message''],
        highlight = 0\<rparr>]"
  have d: "decodes_to (known_read_hda lines_payload lines_records)
      (drop 5 (concat [] @ lines_frame)) ([] @ ?h # ?after)"
    using lines_frame_decodes by (simp add: lines_records_def)
  have pos: "0 < highlight ?h" by simp
  from highlight_positive_takes_precedence [OF lines_frame_assembled d pos,
      of plain_os "[]" Map.empty]
  show ?thesis by (simp add: hda_events_def startswith_def)
qed

text \<open>
  C2 as stated fails for a negative \<^verbatim>\<open>highlight\<close>: the value -1 is nonzero, and
  the record with the tags \<^verbatim>\<open>nick_alice\<close>, \<^verbatim>\<open>notify_private\<close> yields a
  PrivateMessage event and no Highlight event.
\<close>

theorem highlight_nonzero_counterexample:
  "highlight \<lparr>message = ''hi'', tags_array = [''nick_alice'', ''notify_private''],
      highlight = - 1\<rparr> \<noteq> 0 \<and>
   hda_events \<lparr>message = ''hi'', tags_array = [''nick_alice'', ''notify_private''],
      highlight = - 1\<rparr> = [PrivateMessage ''hi'' ''alice'']"
  by (simp add: hda_events_def startswith_def)

text \<open>
  C4. Let one call of \<^verbatim>\<open>getResponse\<close> assemble a frame whose body decodes to some
  records, and take any record among them whose \<^verbatim>\<open>highlight\<close> is zero. If one of
  its tags has the prefix \<^verbatim>\<open>notify_\<close> and the remainder \<^verbatim>\<open>private\<close>, the events of
  the call are the events of the records before it, then exactly one event for the
  record, the PrivateMessage event with its message and nickname, then the events of
  the records after it. If every tag with the prefix has another remainder, the call
  emits no event for the record.
\<close>

theorem private_notify_level_routed:
  assumes "assembled_from fulls c mLen"
    and "decodes_to read_hda (drop 5 (concat fulls @ c)) (before @ h # after)"
    and "highlight h = 0"
  shows "((\<exists>tag\<in>set (tags_array h). startswith tag ''notify_'' \<and> drop 7 tag = ''private'')
          \<longrightarrow> events (getResponse read_hda sys (fulls @ c # rest) conf) =
                concat (map hda_events before)
                @ [PrivateMessage (message h) (nick_loop (tags_array h) [])]
                @ concat (map hda_events after)) \<and>
         ((\<forall>tag\<in>set (tags_array h). startswith tag ''notify_'' \<longrightarrow> drop 7 tag \<noteq> ''private'')
          \<longrightarrow> events (getResponse read_hda sys (fulls @ c # rest) conf) =
                concat (map hda_events before) @ concat (map hda_events after))"
  using assms(3)
  by (auto simp: getResponse_decoded [OF assms(1,2)] hda_events_def notify_loop_eq)

theorem private_notify_level_routed_witness:
  "events (getResponse (known_read_hda lines_payload lines_records) plain_os [lines_frame]
      Map.empty) = [Highlight ''hi'' ''alice''] @ [PrivateMessage ''psst'' ''bob''] @ [] \<and>
   events (getResponse (known_read_hda lines_payload lines_records) plain_os [lines_frame]
      Map.empty) = [Highlight ''hi'' ''alice'', PrivateMessage ''psst'' ''bob''] @ []"
proof -
  let ?a = "\<lparr>message = ''hi'', tags_array = [''nick_alice'', ''notify_private''],
      highlight = 1\<rparr>"
  let ?b = "\<lparr>message = ''psst'', tags_array = [''nick_bob'', ''notify_private''],
      highlight = 0\<rparr>"
  let ?c = "\<lparr>message = ''hello'', tags_array = [''nick_carol'', ''notify_message''],
      highlight = 0\<rparr>"
  have d1: "decodes_to (known_read_hda lines_payload lines_records)
      (drop 5 (concat [] @ lines_frame)) ([?a] @ ?b # [?c])"
    using lines_frame_decodes by (simp add: lines_records_def)
  have d2: "decodes_to (known_read_hda lines_payload lines_records)
      (drop 5 (concat [] @ lines_frame)) ([?a, ?b] @ ?c # [])"
    using lines_frame_decodes by (simp add: lines_records_def)
  have zb: "highlight ?b = 0" and zc: "highlight ?c = 0" by simp_all
  have some: "\<exists>tag\<in>set (tags_array ?b).
      startswith tag ''notify_'' \<and> drop 7 tag = ''private''"
    by (simp add: startswith_def)
  have none: "\<forall>tag\<in>set (tags_array ?c).
      startswith tag ''notify_'' \<longrightarrow> drop 7 tag \<noteq> ''private''"
    by (simp add: startswith_def)
  have r1: "events (getResponse (known_read_hda lines_payload lines_records) plain_os
      [lines_frame] Map.empty) =
        concat (map hda_events [?a])
        @ [PrivateMessage (message ?b) (nick_loop (tags_array ?b) [])]
        @ concat (map hda_events [?c])"
    using private_notify_level_routed [OF lines_frame_assembled d1 zb,
        of plain_os "[]" Map.empty] some
    by (simp del: hda.simps nick_loop.simps)
  have r2: "events (getResponse (known_read_hda lines_payload lines_records) plain_os
      [lines_frame] Map.empty) =
        concat (map hda_events [?a, ?b]) @ concat (map hda_events [])"
    using private_notify_level_routed [OF lines_frame_assembled d2 zc,
        of plain_os "[]" Map.empty] none
    by (simp del: hda.simps)
  from r1 r2 show ?thesis by (simp add: hda_events_def startswith_def)
qed

section \<open>Bytes beyond the declared length, and a stream closed within a frame\<close>

text \<open>
  C9, as the code has it. When the buffer of a call holds a valid frame and then
  surplus bytes, the body handed to the decoders is the frame's body with the surplus
  appended (line 84 slices from offset 5 to the end of the buffer, not to the declared
  length), and it is decoded once; the socket is left at the reads that follow, so the
  surplus is put back nowhere and the next call of the read loop starts after it.
\<close>

theorem surplus_bytes_discarded:
  assumes "valid_frame frame" and "concat fulls @ c = frame @ surplus"
    and "list_all full fulls" and "length c \<le> READ_AT_ONCE"
    and "fulls = [] \<or> length (concat fulls) < length frame"
  shows "getResponse read_hda sys (fulls @ c # rest) conf
           = handle_body read_hda sys conf (drop 5 frame @ surplus) rest \<and>
         sock_after (getResponse read_hda sys (fulls @ c # rest) conf) = rest \<and>
         (result (getResponse read_hda sys (fulls @ c # rest) conf) = Inr True \<longrightarrow>
            main_loop read_hda sys (fulls @ c # rest) conf
              = getResponse read_hda sys (fulls @ c # rest) conf
                  # main_loop read_hda sys rest conf)"
proof -
  have five: "5 \<le> length frame"
    using assms(1) by (simp add: valid_frame_def frame_header_def)
  have hw: "frame_header (frame @ surplus) (int (length frame))"
    using assms(1) five by (simp add: valid_frame_def frame_header_append)
  have h: "frame_header (hd (fulls @ [c])) (int (length frame))"
  proof (cases fulls)
    case Nil
    with assms(2) hw show ?thesis by simp
  next
    case (Cons f fs)
    with assms have "length f = READ_AT_ONCE" and "frame @ surplus = f @ (concat fs @ c)"
      by (auto simp: full_def)
    with hw Cons show ?thesis
      by (simp add: frame_header_append READ_AT_ONCE_def)
  qed
  have "length (concat fulls) + length c = length frame + length surplus"
    using assms(2) by (metis length_append)
  with h assms have a: "assembled_from fulls c (int (length frame))"
    by (auto simp: assembled_from_def)
  have g: "getResponse read_hda sys (fulls @ c # rest) conf
      = handle_body read_hda sys conf (drop 5 frame @ surplus) rest"
    using getResponse_assembled [OF a, of read_hda sys rest conf] assms(2) five by simp
  then have s: "sock_after (getResponse read_hda sys (fulls @ c # rest) conf) = rest"
    by (simp add: handle_body_sock_after)
  show ?thesis
    using g s main_loop_continue [of read_hda sys "fulls @ c # rest" conf] by simp
qed

theorem surplus_bytes_discarded_witness:
  "main_loop sample_read_hda plain_os [nicklist_frame @ line_frame] Map.empty =
     [\<lparr>result = Inr True, events = [], effects = [], sock_after = []\<rparr>,
      \<lparr>result = Inr False, events = [], effects = [], sock_after = []\<rparr>] \<and>
   getResponse sample_read_hda plain_os [line_frame @ nicklist_frame] Map.empty =
     \<lparr>result = Inr True, events = [Highlight ''hi'' ''alice''],
      effects = [LogDebug ''Received buffer line.''], sock_after = []\<rparr>"
proof -
  have n: "length nicklist_frame = 21" and l: "length line_frame = 122"
    by (simp_all add: nicklist_frame_def line_frame_def line_payload_def)
  have c1: "concat [] @ (nicklist_frame @ line_frame) = nicklist_frame @ line_frame"
    and c2: "concat [] @ (line_frame @ nicklist_frame) = line_frame @ nicklist_frame"
    by simp_all
  have f: "list_all full []" by simp
  have le: "length (nicklist_frame @ line_frame) \<le> READ_AT_ONCE"
    "length (line_frame @ nicklist_frame) \<le> READ_AT_ONCE"
    using n l by (simp_all add: READ_AT_ONCE_def)
  have e1: "([]::bytes list) = [] \<or> length (concat ([]::bytes list)) < length nicklist_frame"
    and e2: "([]::bytes list) = [] \<or> length (concat ([]::bytes list)) < length line_frame"
    by simp_all
  have b1: "handle_body sample_read_hda plain_os Map.empty
        (drop 5 nicklist_frame @ line_frame) []
      = \<lparr>result = Inr True, events = [], effects = [], sock_after = []\<rparr>"
    by (simp add: handle_body_def read_str_def nicklist_frame_def)
  have b2: "handle_body sample_read_hda plain_os Map.empty
        (drop 5 line_frame @ nicklist_frame) []
      = \<lparr>result = Inr True, events = [Highlight ''hi'' ''alice''],
         effects = [LogDebug ''Received buffer line.''], sock_after = []\<rparr>"
    by (simp only: line_frame_events) (simp add: gotHighlight_def)
  have c: "main_loop sample_read_hda plain_os [] Map.empty
      = [\<lparr>result = Inr False, events = [], effects = [], sock_after = []\<rparr>]"
    by (simp add: main_loop_stop getResponse_closed recv_def)
  from surplus_bytes_discarded [OF valid_nicklist_frame c1 f le(1) e1,
      of sample_read_hda plain_os "[]" Map.empty] b1 c
  have r1: "main_loop sample_read_hda plain_os [nicklist_frame @ line_frame] Map.empty =
     [\<lparr>result = Inr True, events = [], effects = [], sock_after = []\<rparr>,
      \<lparr>result = Inr False, events = [], effects = [], sock_after = []\<rparr>]"
    by simp
  from surplus_bytes_discarded [OF valid_line_frame c2 f le(2) e2,
      of sample_read_hda plain_os "[]" Map.empty] b2
  have r2: "getResponse sample_read_hda plain_os [line_frame @ nicklist_frame] Map.empty =
     \<lparr>result = Inr True, events = [Highlight ''hi'' ''alice''],
      effects = [LogDebug ''Received buffer line.''], sock_after = []\<rparr>"
    by simp
  from r1 r2 show ?thesis by simp
qed

text \<open>A frame of 9 bytes, and bytes to follow it.\<close>

definition short_frame :: bytes where
  "short_frame =
     [CHR 0x00, CHR 0x00, CHR 0x00, CHR 0x09, CHR 0x00,
      CHR 0x00, CHR 0x00, CHR 0x00, CHR 0x12]"

definition line_tail :: bytes where
  "line_tail = ''_buffer_line_added'' @ ''hda'' @ line_payload"

lemma valid_short_frame: "valid_frame short_frame"
  by (simp add: valid_frame_def frame_header_def short_frame_def)

text \<open>
  C9 as stated fails where it says that only the first frame's content is decoded. The
  frame \<open>short_frame\<close> is valid and 9 bytes long: its body is the length prefix of an
  identifier and nothing more, so on its own it cannot be decoded and the call raises.
  Followed in the same read by \<open>line_tail\<close>, the call decodes the identifier, the
  type tag and the record from the bytes past the declared length and emits a Highlight
  event.
\<close>

theorem surplus_decoded_counterexample:
  "valid_frame short_frame \<and>
   getResponse sample_read_hda plain_os [short_frame] Map.empty =
     \<lparr>result = Inl UnconsumableDecode, events = [], effects = [], sock_after = []\<rparr> \<and>
   getResponse sample_read_hda plain_os [short_frame @ line_tail] Map.empty =
     \<lparr>result = Inr True, events = [Highlight ''hi'' ''alice''],
      effects = [LogDebug ''Received buffer line.''], sock_after = []\<rparr>"
proof -
  have a: "getResponse sample_read_hda plain_os [short_frame] Map.empty =
     \<lparr>result = Inl UnconsumableDecode, events = [], effects = [], sock_after = []\<rparr>"
    unfolding getResponse_segment [OF valid_short_frame]
    by (simp add: handle_body_def read_str_def short_frame_def)
  have le: "length (short_frame @ line_tail) \<le> READ_AT_ONCE"
    by (simp add: short_frame_def line_tail_def line_payload_def READ_AT_ONCE_def)
  have asm: "assembled_from [] (short_frame @ line_tail) 9"
    using le by (simp add: assembled_from_def frame_header_def short_frame_def)
  have b: "drop 5 (concat [] @ (short_frame @ line_tail)) = drop 5 line_frame @ []"
    by (simp add: short_frame_def line_tail_def line_frame_def)
  have "getResponse sample_read_hda plain_os [short_frame @ line_tail] Map.empty =
     \<lparr>result = Inr True, events = [Highlight ''hi'' ''alice''],
      effects = [LogDebug ''Received buffer line.''], sock_after = []\<rparr>"
    using getResponse_assembled [OF asm, of sample_read_hda plain_os "[]" Map.empty]
    unfolding b
    by (simp only: line_frame_events) (simp add: gotHighlight_def)
  with a valid_short_frame show ?thesis by simp
qed

text \<open>
  C10. When the peer closes after full reads that leave the buffer below the declared
  length, the read inside the loop returns no bytes and \<^verbatim>\<open>getResponse\<close> returns
  \<^verbatim>\<open>True\<close> with the warning of line 79; the next call's first read finds the
  stream closed and returns \<^verbatim>\<open>False\<close>, which ends the read loop.
\<close>

theorem midframe_close_returns_retry:
  assumes "fulls \<noteq> []" and "list_all full fulls"
    and "frame_header (hd fulls) mLen"
    and "int (length (concat fulls)) < mLen"
  shows "getResponse read_hda sys fulls conf
           = retry ''Incomplete packet received. Ignoring.'' [] \<and>
         getResponse read_hda sys (sock_after (getResponse read_hda sys fulls conf)) conf
           = \<lparr>result = Inr False, events = [], effects = [], sock_after = []\<rparr> \<and>
         main_loop read_hda sys fulls conf
           = [retry ''Incomplete packet received. Ignoring.'' [],
              \<lparr>result = Inr False, events = [], effects = [], sock_after = []\<rparr>]"
proof -
  have g: "getResponse read_hda sys fulls conf
      = retry ''Incomplete packet received. Ignoring.'' []"
    using assms by (rule getResponse_closed_midframe)
  have c: "getResponse read_hda sys [] conf
      = \<lparr>result = Inr False, events = [], effects = [], sock_after = []\<rparr>"
    by (simp add: getResponse_closed recv_def)
  then have m: "main_loop read_hda sys [] conf
      = [\<lparr>result = Inr False, events = [], effects = [], sock_after = []\<rparr>]"
    by (simp add: main_loop_stop)
  have "main_loop read_hda sys fulls conf
      = retry ''Incomplete packet received. Ignoring.'' [] # main_loop read_hda sys [] conf"
    using main_loop_continue [of read_hda sys fulls conf] g by (simp add: retry_def)
  with g c m show ?thesis by (simp add: retry_def)
qed

theorem midframe_close_returns_retry_witness:
  "main_loop sample_read_hda plain_os [big_first] Map.empty
     = [retry ''Incomplete packet received. Ignoring.'' [],
        \<lparr>result = Inr False, events = [], effects = [], sock_after = []\<rparr>]"
proof -
  have n: "[big_first] \<noteq> []" by simp
  have f: "list_all full [big_first]" by (simp add: big_first_full)
  have h: "frame_header (hd [big_first]) 4100" by (simp add: big_first_header)
  have l: "int (length (concat [big_first])) < 4100"
    using big_first_full by (simp add: full_def READ_AT_ONCE_def)
  from midframe_close_returns_retry [OF n f h l, of sample_read_hda plain_os Map.empty]
  show ?thesis by simp
qed

end
